theory Spec2Isabelle
  imports
    Main
    "HOL-Library.AList"
    "HOL-Library.Char_ord"
    "HOL-Library.List_Lexorder"
    "HOL-Library.Sublist"
begin

section \<open>Go strings, runes and UTF-8\<close>

text \<open>
  A Go \<open>string\<close> is a sequence of bytes; it is modelled as an Isabelle \<open>string\<close>
  (a list of 8-bit characters), so \<open>len(s)\<close> is \<open>length s\<close> and \<open>s[i]\<close> is a byte.
  A \<open>rune\<close> is a code point (Go's \<open>int32\<close>), modelled as an integer. The trie never sees
  bytes: \<open>strings.Reader.ReadRune\<close> and \<open>for pos, r := range s\<close> decode UTF-8, and
  an invalid byte decodes to \<open>RuneError\<close> (U+FFFD) of width 1. The functions of the
  Go standard library (package \<open>unicode/utf8\<close>) are written out here after their
  Go sources.
\<close>

type_synonym rune = int

definition RuneError :: rune where
  "RuneError = 0xFFFD"

definition MaxRune :: rune where
  "MaxRune = 0x10FFFF"

text \<open>
  \<open>utf8.DecodeRuneInString\<close>: the first rune of \<open>s\<close> and its width in bytes. The
  leading byte fixes the size of the sequence and the range accepted for the second
  byte (Go's tables \<open>first\<close> and \<open>acceptRanges\<close>); a sequence cut short or with a byte
  out of range decodes to \<open>(RuneError, 1)\<close>.
\<close>

definition acceptLo :: "int \<Rightarrow> int" where
  "acceptLo s0 = (if s0 = 0xE0 then 0xA0 else if s0 = 0xF0 then 0x90 else 0x80)"

definition acceptHi :: "int \<Rightarrow> int" where
  "acceptHi s0 = (if s0 = 0xED then 0x9F else if s0 = 0xF4 then 0x8F else 0xBF)"

fun decode2 :: "int \<Rightarrow> int list \<Rightarrow> rune \<times> nat" where
  "decode2 s0 (s1 # t) =
     (if s1 < acceptLo s0 \<or> acceptHi s0 < s1 then (RuneError, 1)
      else ((s0 mod 32) * 64 + s1 mod 64, 2))"
| "decode2 s0 [] = (RuneError, 1)"

fun decode3 :: "int \<Rightarrow> int list \<Rightarrow> rune \<times> nat" where
  "decode3 s0 (s1 # s2 # t) =
     (if s1 < acceptLo s0 \<or> acceptHi s0 < s1 then (RuneError, 1)
      else if s2 < 0x80 \<or> 0xBF < s2 then (RuneError, 1)
      else ((s0 mod 16) * 4096 + (s1 mod 64) * 64 + s2 mod 64, 3))"
| "decode3 s0 t = (RuneError, 1)"

fun decode4 :: "int \<Rightarrow> int list \<Rightarrow> rune \<times> nat" where
  "decode4 s0 (s1 # s2 # s3 # t) =
     (if s1 < acceptLo s0 \<or> acceptHi s0 < s1 then (RuneError, 1)
      else if s2 < 0x80 \<or> 0xBF < s2 then (RuneError, 1)
      else if s3 < 0x80 \<or> 0xBF < s3 then (RuneError, 1)
      else ((s0 mod 8) * 262144 + (s1 mod 64) * 4096 + (s2 mod 64) * 64 + s3 mod 64, 4))"
| "decode4 s0 t = (RuneError, 1)"

fun decodeBytes :: "int list \<Rightarrow> rune \<times> nat" where
  "decodeBytes [] = (RuneError, 0)"
| "decodeBytes (s0 # t) =
     (if s0 < 0x80 then (s0, 1)
      else if s0 < 0xC2 \<or> 0xF4 < s0 then (RuneError, 1)
      else if s0 < 0xE0 then decode2 s0 t
      else if s0 < 0xF0 then decode3 s0 t
      else decode4 s0 t)"

definition DecodeRuneInString :: "string \<Rightarrow> rune \<times> nat" where
  "DecodeRuneInString s = decodeBytes (map of_char s)"

text \<open>\<open>utf8.RuneLen\<close>: the number of bytes of the encoding of a rune, \<open>-1\<close> when the
  rune cannot be encoded.\<close>

definition RuneLen :: "rune \<Rightarrow> int" where
  "RuneLen r =
     (if r < 0 then - 1
      else if r < 0x80 then 1
      else if r < 0x800 then 2
      else if 0xD800 \<le> r \<and> r \<le> 0xDFFF then - 1
      else if r < 0x10000 then 3
      else if r \<le> MaxRune then 4
      else - 1)"

text \<open>\<open>utf8.EncodeRune\<close>: the bytes \<open>buf[0:numChars]\<close> written for a rune; a surrogate
  or a value outside \<open>0..MaxRune\<close> is encoded as \<open>RuneError\<close>.\<close>

definition EncodeRune :: "rune \<Rightarrow> string" where
  "EncodeRune r0 =
     (if 0 \<le> r0 \<and> r0 < 0x80 then [char_of r0]
      else if 0 \<le> r0 \<and> r0 < 0x800 then
        [char_of (0xC0 + r0 div 64), char_of (0x80 + r0 mod 64)]
      else
        let r = (if r0 < 0 \<or> MaxRune < r0 \<or> (0xD800 \<le> r0 \<and> r0 \<le> 0xDFFF)
                 then RuneError else r0) in
        if r < 0x10000 then
          [char_of (0xE0 + r div 4096), char_of (0x80 + (r div 64) mod 64),
           char_of (0x80 + r mod 64)]
        else
          [char_of (0xF0 + r div 262144), char_of (0x80 + (r div 4096) mod 64),
           char_of (0x80 + (r div 64) mod 64), char_of (0x80 + r mod 64)])"

text \<open>The string built by encoding a sequence of runes one after the other.\<close>

definition EncodeRunes :: "rune list \<Rightarrow> string" where
  "EncodeRunes rs = concat (map EncodeRune rs)"

lemma decode2_width: "snd (decode2 s0 t) = 1 \<or> snd (decode2 s0 t) = 2 \<and> 1 \<le> length t"
  by (cases t) auto

lemma decode3_width: "snd (decode3 s0 t) = 1 \<or> snd (decode3 s0 t) = 3 \<and> 2 \<le> length t"
  by (induction s0 t rule: decode3.induct) auto

lemma decode4_width: "snd (decode4 s0 t) = 1 \<or> snd (decode4 s0 t) = 4 \<and> 3 \<le> length t"
  by (induction s0 t rule: decode4.induct) auto

lemma decodeBytes_width:
  "1 \<le> snd (decodeBytes (s0 # t)) \<and> snd (decodeBytes (s0 # t)) \<le> Suc (length t)"
  using decode2_width [of s0 t] decode3_width [of s0 t] decode4_width [of s0 t]
  by auto

lemma DecodeRuneInString_width:
  "s \<noteq> [] \<Longrightarrow> 1 \<le> snd (DecodeRuneInString s)"
proof (cases s)
  case (Cons c cs)
  show ?thesis unfolding Cons DecodeRuneInString_def list.map
    using decodeBytes_width by blast
qed simp

lemma DecodeRuneInString_width_le:
  "snd (DecodeRuneInString s) \<le> length s"
proof (cases s)
  case (Cons c cs)
  show ?thesis unfolding Cons DecodeRuneInString_def list.map
    using decodeBytes_width [of "of_char c" "map of_char cs"] by simp
qed (simp add: DecodeRuneInString_def)

text \<open>\<open>for pos, r := range s\<close>: the byte offset and the rune of every decoding step,
  the string being \<open>s[pos:]\<close> at offset \<open>pos\<close>.\<close>

function rangeFrom :: "nat \<Rightarrow> string \<Rightarrow> (nat \<times> rune) list" where
  "rangeFrom pos [] = []"
| "rangeFrom pos (c # cs) =
     (case DecodeRuneInString (c # cs) of
        (r, w) \<Rightarrow> (pos, r) # rangeFrom (pos + w) (drop w (c # cs)))"
  by pat_completeness auto
termination
proof (relation "measure (\<lambda>(pos, s). length s)", goal_cases)
  case 1
  show ?case by simp
next
  case (2 pos c cs r w)
  then have "snd (DecodeRuneInString (c # cs)) = w" by (metis snd_conv)
  with DecodeRuneInString_width [of "c # cs"] have "1 \<le> w" by simp
  then show ?case by simp
qed

definition rangeStr :: "string \<Rightarrow> (nat \<times> rune) list" where
  "rangeStr s = rangeFrom 0 s"

text \<open>The runes that a \<open>strings.Reader\<close> on \<open>s\<close> yields to successive \<open>ReadRune\<close>
  calls until it reports the end of the input.\<close>

definition runes :: "string \<Rightarrow> rune list" where
  "runes s = map snd (rangeStr s)"

text \<open>\<open>utf8.ValidString\<close>: no decoding step meets an invalid byte.\<close>

function ValidString :: "string \<Rightarrow> bool" where
  "ValidString [] = True"
| "ValidString (c # cs) =
     (case DecodeRuneInString (c # cs) of
        (r, w) \<Rightarrow> \<not> (r = RuneError \<and> w = 1) \<and> ValidString (drop w (c # cs)))"
  by pat_completeness auto
termination
proof (relation "measure length", goal_cases)
  case 1
  show ?case by simp
next
  case (2 c cs r w)
  then have "snd (DecodeRuneInString (c # cs)) = w" by (metis snd_conv)
  with DecodeRuneInString_width [of "c # cs"] have "1 \<le> w" by simp
  then show ?case by simp
qed

text \<open>A slice expression \<open>s[lo:hi]\<close> panics unless \<open>0 \<le> lo \<le> hi \<le> len(s)\<close>.\<close>

datatype panic = SliceBoundsOutOfRange | IndexOutOfRange

definition slice :: "string \<Rightarrow> int \<Rightarrow> int \<Rightarrow> panic + string" where
  "slice s lo hi =
     (if 0 \<le> lo \<and> lo \<le> hi \<and> hi \<le> int (length s)
      then Inr (take (nat hi - nat lo) (drop (nat lo) s))
      else Inl SliceBoundsOutOfRange)"


text \<open>Indexing \<open>s[i]\<close> panics unless \<open>0 \<le> i < len(s)\<close>.\<close>

definition byteAt :: "string \<Rightarrow> int \<Rightarrow> panic + int" where
  "byteAt s i =
     (if 0 \<le> i \<and> i < int (length s) then Inr (of_char (s ! nat i))
      else Inl IndexOutOfRange)"

section \<open>The trie of \<open>trie.go\<close>\<close>

text \<open>
  \<open>type Trie struct { leaf bool; value interface{}; children map[rune]*Trie }\<close>.
  The field \<open>value\<close> is the selector \<open>val\<close>; the value \<open>nil\<close> of the interface is
  \<open>None\<close>. The map of children is an association
  list read with \<open>map_of\<close>, written with \<open>AList.update\<close> and \<open>AList.delete\<close>; a map
  has one entry for a key, which is the invariant \<open>invar\<close> below. Every node is
  allocated by \<open>NewTrie\<close> and referenced by its parent only, so a method that
  mutates the receiver is a function that returns the new node.
\<close>

datatype 'v Trie =
  Trie (leaf: bool) (val: "'v option") (children: "(rune \<times> 'v Trie) list")

definition NewTrie :: "'v Trie" where
  "NewTrie = Trie False None []"

text \<open>
  \<open>addRunes\<close> returns the node at which the addition ends and \<open>AddValue\<close> assigns to
  its field \<open>value\<close>; here the caller's assignment is the argument \<open>f\<close>, applied to
  that node.
\<close>

fun addRunes :: "('v Trie \<Rightarrow> 'v Trie) \<Rightarrow> 'v Trie \<Rightarrow> rune list \<Rightarrow> 'v Trie" where
  "addRunes f (Trie l v cs) [] = f (Trie True v cs)"
| "addRunes f (Trie l v cs) (r0 # r) =
     (let n = (case map_of cs r0 of None \<Rightarrow> NewTrie | Some n \<Rightarrow> n)
      in Trie l v (AList.update r0 (addRunes f n r) cs))"

definition AddString :: "'v Trie \<Rightarrow> string \<Rightarrow> 'v Trie" where
  "AddString p s = (if length s = 0 then p else addRunes (\<lambda>n. n) p (runes s))"

definition AddValue :: "'v Trie \<Rightarrow> string \<Rightarrow> 'v option \<Rightarrow> 'v Trie" where
  "AddValue p s v =
     (if length s = 0 then p
      else addRunes (\<lambda>n. Trie (leaf n) v (children n)) p (runes s))"

text \<open>\<open>removeRunes\<close> returns the node after the removal and the reported flag.\<close>

fun removeRunes :: "'v Trie \<Rightarrow> rune list \<Rightarrow> 'v Trie \<times> bool" where
  "removeRunes (Trie l v cs) [] = (Trie False None cs, length cs = 0)"
| "removeRunes (Trie l v cs) (r0 # r) =
     (case map_of cs r0 of
        None \<Rightarrow> (Trie l v cs, length cs = 0)
      | Some child \<Rightarrow>
          (case removeRunes child r of
             (child', emptied) \<Rightarrow>
               let cs' = (if emptied then AList.delete r0 cs else AList.update r0 child' cs)
               in (Trie l v cs', length cs' = 0)))"

definition Remove :: "'v Trie \<Rightarrow> string \<Rightarrow> 'v Trie \<times> bool" where
  "Remove p s =
     (if length s = 0 then (p, length (children p) = 0) else removeRunes p (runes s))"

fun includes' :: "'v Trie \<Rightarrow> rune list \<Rightarrow> 'v Trie option" where
  "includes' p [] = (if leaf p then Some p else None)"
| "includes' p (r0 # r) =
     (case map_of (children p) r0 of
        None \<Rightarrow> None
      | Some child \<Rightarrow> includes' child r)"

definition Contains :: "'v Trie \<Rightarrow> string \<Rightarrow> bool" where
  "Contains p s = (if length s = 0 then False else includes' p (runes s) \<noteq> None)"

definition GetValue :: "'v Trie \<Rightarrow> string \<Rightarrow> 'v option \<times> bool" where
  "GetValue p s =
     (if length s = 0 then (None, False)
      else (case includes' p (runes s) of
              None \<Rightarrow> (None, False)
            | Some n \<Rightarrow> (val n, True)))"

text \<open>\<open>buildMembers\<close>, with its loop over the children as \<open>buildChildren\<close>.\<close>

fun buildMembers :: "'v Trie \<Rightarrow> string \<Rightarrow> string list"
  and buildChildren :: "(rune \<times> 'v Trie) list \<Rightarrow> string \<Rightarrow> string list" where
  "buildMembers (Trie l v cs) pre = (if l then [pre] else []) @ buildChildren cs pre"
| "buildChildren [] pre = []"
| "buildChildren ((r, child) # cs) pre =
     buildMembers child (pre @ EncodeRune r) @ buildChildren cs pre"

definition Members :: "'v Trie \<Rightarrow> string list" where
  "Members p = sort (buildMembers p [])"

text \<open>\<open>Size\<close>, with its loop over the children as \<open>SizeChildren\<close>.\<close>

fun Size :: "'v Trie \<Rightarrow> nat"
  and SizeChildren :: "(rune \<times> 'v Trie) list \<Rightarrow> nat" where
  "Size (Trie l v cs) = length cs + SizeChildren cs"
| "SizeChildren [] = 0"
| "SizeChildren ((r, child) # cs) = Size child + SizeChildren cs"

text \<open>
  The loop of \<open>AllSubstrings\<close> over \<open>range s\<close>: \<open>p\<close> is the current node, \<open>v\<close> the
  output so far, \<open>break\<close> returns it.
\<close>

fun AllSubstrings_loop ::
  "string \<Rightarrow> 'v Trie \<Rightarrow> (nat \<times> rune) list \<Rightarrow> string list \<Rightarrow> panic + string list" where
  "AllSubstrings_loop s p [] v = Inr v"
| "AllSubstrings_loop s p ((pos, r) # rest) v =
     (case map_of (children p) r of
        None \<Rightarrow> Inr v
      | Some child \<Rightarrow>
          if leaf child then
            (case slice s 0 (int pos) of
               Inl e \<Rightarrow> Inl e
             | Inr sub \<Rightarrow> AllSubstrings_loop s child rest (v @ [sub]))
          else AllSubstrings_loop s child rest v)"

definition AllSubstrings :: "'v Trie \<Rightarrow> string \<Rightarrow> panic + string list" where
  "AllSubstrings p s = AllSubstrings_loop s p (rangeStr s) []"

fun AllSubstringsAndValues_loop ::
  "string \<Rightarrow> 'v Trie \<Rightarrow> (nat \<times> rune) list \<Rightarrow> string list \<Rightarrow> 'v option list
     \<Rightarrow> panic + (string list \<times> 'v option list)" where
  "AllSubstringsAndValues_loop s p [] sv vv = Inr (sv, vv)"
| "AllSubstringsAndValues_loop s p ((pos, rune) # rest) sv vv =
     (case map_of (children p) rune of
        None \<Rightarrow> Inr (sv, vv)
      | Some child \<Rightarrow>
          if leaf child then
            (case slice s 0 (int pos + RuneLen rune) of
               Inl e \<Rightarrow> Inl e
             | Inr sub \<Rightarrow>
                 AllSubstringsAndValues_loop s child rest (sv @ [sub]) (vv @ [val child]))
          else AllSubstringsAndValues_loop s child rest sv vv)"

definition AllSubstringsAndValues ::
  "'v Trie \<Rightarrow> string \<Rightarrow> panic + (string list \<times> 'v option list)" where
  "AllSubstringsAndValues p s = AllSubstringsAndValues_loop s p (rangeStr s) [] []"


section \<open>The weighted trie of \<open>value_trie.go\<close>\<close>

text \<open>
  The declaration of \<open>type ValueTrie struct\<close> is not in the file; its fields are those
  that \<open>NewValueTrie\<close> initialises: \<open>value\<close> (an \<open>int\<close>, set to \<open>0\<close>), \<open>leaf\<close> and
  \<open>children\<close> (a \<open>map[int]*ValueTrie\<close>).
\<close>

datatype ValueTrie =
  ValueTrie (vleaf: bool) (vvalue: int) (vchildren: "(rune \<times> ValueTrie) list")

definition NewValueTrie :: ValueTrie where
  "NewValueTrie = ValueTrie False 0 []"

text \<open>
  The channel \<open>iter\<close> has one sender, which closes it after its last value, and one
  receiver. It is modelled by the list of the values sent and not yet received:
  \<open>val := <-iter\<close> takes the head, and yields the zero value once the list is used up
  (a receive from a closed channel). What the receiver reads does not depend on the
  interleaving of the two goroutines. The second \<open>close(iter)\<close>, which
  \<open>AddPatternString\<close> calls after \<open>addRunes\<close> has returned, comes after every
  receive and stores nothing; it is left out.
\<close>

fun recv :: "int list \<Rightarrow> int \<times> int list" where
  "recv [] = (0, [])"
| "recv (x # xs) = (x, xs)"

fun ValueTrie_addRunes :: "ValueTrie \<Rightarrow> rune list \<Rightarrow> int list \<Rightarrow> ValueTrie" where
  "ValueTrie_addRunes (ValueTrie l v cs) [] iter = ValueTrie True v cs"
| "ValueTrie_addRunes (ValueTrie l v cs) (rune # r) iter =
     (case recv iter of
        (val', iter') \<Rightarrow>
          let n = (case map_of cs rune of
                     None \<Rightarrow> ValueTrie False val' []
                   | Some n \<Rightarrow> n)
          in ValueTrie l v (AList.update rune (ValueTrie_addRunes n r iter') cs))"

definition ValueTrie_Add :: "ValueTrie \<Rightarrow> string \<Rightarrow> int list \<Rightarrow> ValueTrie" where
  "ValueTrie_Add p s v = (if length s = 0 then p else ValueTrie_addRunes p (runes s) v)"

definition rune0 :: rune where
  "rune0 = fst (DecodeRuneInString ''0'')"

definition rune9 :: rune where
  "rune9 = fst (DecodeRuneInString ''9'')"

text \<open>
  The goroutine of \<open>AddPatternString\<close>: the values it sends on \<open>iter\<close>, in order, as
  its loop runs over \<open>range s\<close>.
\<close>

fun sendValues :: "string \<Rightarrow> (nat \<times> rune) list \<Rightarrow> panic + int list" where
  "sendValues s [] = Inr []"
| "sendValues s ((pos, rune) # rest) =
     (if rune0 \<le> rune \<and> rune \<le> rune9 then sendValues s rest
      else if int pos < int (length s) - 1 then
        (case byteAt s (int pos + 1) of
           Inl e \<Rightarrow> Inl e
         | Inr next \<Rightarrow>
             (case sendValues s rest of
                Inl e \<Rightarrow> Inl e
              | Inr vals \<Rightarrow>
                  Inr ((if next \<le> 0x39 \<and> 0x30 \<le> next then next - 0x30 else 0) # vals)))
      else sendValues s rest)"

text \<open>\<open>strings.Map\<close>: the runes of \<open>s\<close> mapped one by one and encoded again, a rune
  mapped to a negative value being dropped.\<close>

definition Map_string :: "(rune \<Rightarrow> rune) \<Rightarrow> string \<Rightarrow> string" where
  "Map_string mapping s =
     concat (map EncodeRune (filter (\<lambda>r. 0 \<le> r) (map mapping (runes s))))"

definition pureString :: "string \<Rightarrow> string" where
  "pureString s = Map_string (\<lambda>rune. if rune0 \<le> rune \<and> rune \<le> rune9 then - 1 else rune) s"

definition AddPatternString :: "ValueTrie \<Rightarrow> string \<Rightarrow> panic + ValueTrie" where
  "AddPatternString p s =
     (case sendValues s (rangeStr s) of
        Inl e \<Rightarrow> Inl e
      | Inr iter \<Rightarrow> Inr (ValueTrie_addRunes p (runes (pureString s)) iter))"

fun ValueTrie_removeRunes :: "ValueTrie \<Rightarrow> rune list \<Rightarrow> ValueTrie \<times> bool" where
  "ValueTrie_removeRunes (ValueTrie l v cs) [] = (ValueTrie False v cs, length cs = 0)"
| "ValueTrie_removeRunes (ValueTrie l v cs) (rune # r) =
     (case map_of cs rune of
        None \<Rightarrow> (ValueTrie l v cs, length cs = 0)
      | Some child \<Rightarrow>
          (case ValueTrie_removeRunes child r of
             (child', emptied) \<Rightarrow>
               let cs' = (if emptied then AList.delete rune cs else AList.update rune child' cs)
               in (ValueTrie l v cs', length cs' = 0)))"

definition ValueTrie_Remove :: "ValueTrie \<Rightarrow> string \<Rightarrow> ValueTrie \<times> bool" where
  "ValueTrie_Remove p s =
     (if length s = 0 then (p, length (vchildren p) = 0) else ValueTrie_removeRunes p (runes s))"

fun ValueTrie_includes :: "ValueTrie \<Rightarrow> rune list \<Rightarrow> bool" where
  "ValueTrie_includes p [] = vleaf p"
| "ValueTrie_includes p (rune # r) =
     (case map_of (vchildren p) rune of
        None \<Rightarrow> False
      | Some child \<Rightarrow> ValueTrie_includes child r)"

definition ValueTrie_Contains :: "ValueTrie \<Rightarrow> string \<Rightarrow> bool" where
  "ValueTrie_Contains p s = (if length s = 0 then False else ValueTrie_includes p (runes s))"

fun ValueTrie_Size :: "ValueTrie \<Rightarrow> nat"
  and ValueTrie_SizeChildren :: "(rune \<times> ValueTrie) list \<Rightarrow> nat" where
  "ValueTrie_Size (ValueTrie l v cs) = length cs + ValueTrie_SizeChildren cs"
| "ValueTrie_SizeChildren [] = 0"
| "ValueTrie_SizeChildren ((r, child) # cs) = ValueTrie_Size child + ValueTrie_SizeChildren cs"

section \<open>Observations used to state the properties\<close>

text \<open>The node reached from \<open>p\<close> along a sequence of runes, if every edge exists.\<close>

fun nodeAt :: "'v Trie \<Rightarrow> rune list \<Rightarrow> 'v Trie option" where
  "nodeAt p [] = Some p"
| "nodeAt p (r0 # r) =
     (case map_of (children p) r0 of
        None \<Rightarrow> None
      | Some child \<Rightarrow> nodeAt child r)"

fun ValueTrie_nodeAt :: "ValueTrie \<Rightarrow> rune list \<Rightarrow> ValueTrie option" where
  "ValueTrie_nodeAt p [] = Some p"
| "ValueTrie_nodeAt p (r0 # r) =
     (case map_of (vchildren p) r0 of
        None \<Rightarrow> None
      | Some child \<Rightarrow> ValueTrie_nodeAt child r)"

text \<open>The weights met along a path: the \<open>value\<close> of the node reached by each rune.\<close>

fun pathWeights :: "ValueTrie \<Rightarrow> rune list \<Rightarrow> int list option" where
  "pathWeights p [] = Some []"
| "pathWeights p (r0 # r) =
     (case map_of (vchildren p) r0 of
        None \<Rightarrow> None
      | Some child \<Rightarrow> map_option ((#) (vvalue child)) (pathWeights child r))"

text \<open>The number of leading runes of a sequence along which \<open>p\<close> has nodes.\<close>

fun pathLen :: "'v Trie \<Rightarrow> rune list \<Rightarrow> nat" where
  "pathLen p [] = 0"
| "pathLen p (r0 # r) =
     (case map_of (children p) r0 of
        None \<Rightarrow> 0
      | Some child \<Rightarrow> Suc (pathLen child r))"

text \<open>The nodes strictly below the root, each named by the path that reaches it.\<close>

definition nodePaths :: "'v Trie \<Rightarrow> rune list set" where
  "nodePaths p = {rs. rs \<noteq> [] \<and> nodeAt p rs \<noteq> None}"


text \<open>The same for a map of children: the paths that start with one of its keys.\<close>

definition childPaths :: "(rune \<times> 'v Trie) list \<Rightarrow> rune list set" where
  "childPaths cs = {k # rs | k rs c. map_of cs k = Some c \<and> nodeAt c rs \<noteq> None}"


text \<open>A map has one entry for a key, in every node.\<close>

fun invar :: "'v Trie \<Rightarrow> bool"
  and invarChildren :: "(rune \<times> 'v Trie) list \<Rightarrow> bool" where
  "invar (Trie l v cs) = (distinct (map fst cs) \<and> invarChildren cs)"
| "invarChildren [] = True"
| "invarChildren ((r, child) # cs) = (invar child \<and> invarChildren cs)"


section \<open>Decoding and encoding\<close>

lemma mod32: "(0xC0::int) \<le> a \<Longrightarrow> a < 0xE0 \<Longrightarrow> a mod 32 = a - 0xC0" by presburger
lemma mod16: "(0xE0::int) \<le> a \<Longrightarrow> a < 0xF0 \<Longrightarrow> a mod 16 = a - 0xE0" by presburger
lemma mod8: "(0xF0::int) \<le> a \<Longrightarrow> a < 0xF8 \<Longrightarrow> a mod 8 = a - 0xF0" by presburger
lemma mod64: "(0x80::int) \<le> a \<Longrightarrow> a \<le> 0xBF \<Longrightarrow> a mod 64 = a - 0x80" by presburger

lemma div_mod_64:
  fixes x c :: int
  assumes "0 \<le> c" "c < 64"
  shows "(x * 64 + c) div 64 = x" "(x * 64 + c) mod 64 = c"
  using assms by simp_all

lemma div_4096: "(r :: int) div 4096 = (r div 64) div 64"
  using zdiv_zmult2_eq [of 64 r 64] by simp

lemma div_262144: "(r :: int) div 262144 = (r div 4096) div 64"
  using zdiv_zmult2_eq [of 64 r 4096] by (simp add: mult.commute)

lemma EncodeRune1:
  fixes r :: int
  assumes "0 \<le> r" "r < 0x80"
  shows "EncodeRune r = [char_of r]"
  unfolding EncodeRune_def by (simp only: assms if_True simp_thms)

lemma EncodeRune2:
  fixes r :: int
  assumes "0x80 \<le> r" "r < 0x800"
  shows "EncodeRune r = [char_of (0xC0 + r div 64), char_of (0x80 + r mod 64)]"
proof -
  have f: "\<not> r < 0x80" "0 \<le> r" using assms by simp_all
  show ?thesis unfolding EncodeRune_def
    by (simp only: f assms(2) if_False if_True simp_thms)
qed

lemma EncodeRune3:
  fixes r :: int
  assumes "0x800 \<le> r" "r < 0x10000" "\<not> (0xD800 \<le> r \<and> r \<le> 0xDFFF)"
  shows "EncodeRune r = [char_of (0xE0 + r div 4096), char_of (0x80 + (r div 64) mod 64),
           char_of (0x80 + r mod 64)]"
proof -
  have f: "\<not> r < 0x80" "\<not> r < 0x800" "\<not> r < 0" "\<not> MaxRune < r"
    using assms by (simp_all add: MaxRune_def)
  show ?thesis unfolding EncodeRune_def Let_def
    by (simp only: f assms(2,3) if_False if_True simp_thms)
qed

lemma EncodeRune4:
  fixes r :: int
  assumes "0x10000 \<le> r" "r \<le> 0x10FFFF"
  shows "EncodeRune r = [char_of (0xF0 + r div 262144), char_of (0x80 + (r div 4096) mod 64),
           char_of (0x80 + (r div 64) mod 64), char_of (0x80 + r mod 64)]"
proof -
  have f: "\<not> r < 0x80" "\<not> r < 0x800" "\<not> r < 0" "\<not> MaxRune < r"
    "\<not> r \<le> 0xDFFF" "\<not> r < 0x10000"
    using assms by (simp_all add: MaxRune_def)
  show ?thesis unfolding EncodeRune_def Let_def
    by (simp only: f if_False if_True simp_thms)
qed

lemma encode_decode2:
  fixes s0 s1 :: int
  assumes "0xC2 \<le> s0" "s0 < 0xE0" "0x80 \<le> s1" "s1 \<le> 0xBF"
  shows "EncodeRune ((s0 mod 32) * 64 + s1 mod 64) = [char_of s0, char_of s1]"
    and "RuneLen ((s0 mod 32) * 64 + s1 mod 64) = 2"
proof -
  define a where "a = s0 - 0xC0"
  define b where "b = s1 - 0x80"
  have a: "2 \<le> a" "a < 32" and b: "0 \<le> b" "b < 64" using assms by (simp_all add: a_def b_def)
  have e: "0xC0 + a = s0" "0x80 + b = s1" by (simp_all add: a_def b_def)
  define r where "r = a * 64 + b"
  have r: "(s0 mod 32) * 64 + s1 mod 64 = r"
    using assms by (simp add: mod32 mod64 a_def b_def r_def)
  have d: "r div 64 = a" unfolding r_def using b by (rule div_mod_64)
  have m: "r mod 64 = b" unfolding r_def using b by (rule div_mod_64)
  have lo: "0x80 \<le> r" using a b unfolding r_def by simp
  have hi: "r < 0x800" using a b unfolding r_def by simp
  show "EncodeRune ((s0 mod 32) * 64 + s1 mod 64) = [char_of s0, char_of s1]"
    unfolding r EncodeRune2 [OF lo hi] d m e ..
  show "RuneLen ((s0 mod 32) * 64 + s1 mod 64) = 2"
    unfolding r RuneLen_def using lo hi by simp
qed

lemma encode_decode3:
  fixes s0 s1 s2 :: int
  assumes "0xE0 \<le> s0" "s0 < 0xF0" "acceptLo s0 \<le> s1" "s1 \<le> acceptHi s0"
    "0x80 \<le> s2" "s2 \<le> 0xBF"
  shows "EncodeRune ((s0 mod 16) * 4096 + (s1 mod 64) * 64 + s2 mod 64)
           = [char_of s0, char_of s1, char_of s2]"
    and "RuneLen ((s0 mod 16) * 4096 + (s1 mod 64) * 64 + s2 mod 64) = 3"
proof -
  define a where "a = s0 - 0xE0"
  define b where "b = s1 - 0x80"
  define c where "c = s2 - 0x80"
  have s1: "0x80 \<le> s1" "s1 \<le> 0xBF"
    using assms(3,4) by (auto simp add: acceptLo_def acceptHi_def split: if_splits)
  have a: "0 \<le> a" "a < 16" and b: "0 \<le> b" "b < 64" and c: "0 \<le> c" "c < 64"
    using assms s1 by (simp_all add: a_def b_def c_def)
  have e: "0xE0 + a = s0" "0x80 + b = s1" "0x80 + c = s2" by (simp_all add: a_def b_def c_def)
  have a0: "a = 0 \<Longrightarrow> 32 \<le> b"
    using assms(3) by (auto simp add: acceptLo_def a_def b_def split: if_splits)
  have a13: "a = 13 \<Longrightarrow> b < 32"
    using assms(4) by (auto simp add: acceptHi_def a_def b_def split: if_splits)
  define r where "r = (a * 64 + b) * 64 + c"
  have r: "(s0 mod 16) * 4096 + (s1 mod 64) * 64 + s2 mod 64 = r"
    using assms s1 by (simp add: mod16 mod64 a_def b_def c_def r_def)
  have q1: "r div 64 = a * 64 + b" unfolding r_def using c by (rule div_mod_64)
  have m: "r mod 64 = c" unfolding r_def using c by (rule div_mod_64)
  have d2: "(r div 64) mod 64 = b" unfolding q1 using b by (rule div_mod_64)
  have d1: "r div 4096 = a" unfolding div_4096 q1 using b by (rule div_mod_64)
  have lo: "0x800 \<le> r"
  proof (cases "a = 0")
    case True
    with a0 have "32 \<le> b" by simp
    with c True show ?thesis unfolding r_def by simp
  next
    case False
    with a have "1 \<le> a" by simp
    with b c show ?thesis unfolding r_def by simp
  qed
  have hi: "r < 0x10000" using a b c unfolding r_def by simp
  have sur: "\<not> (0xD800 \<le> r \<and> r \<le> 0xDFFF)"
  proof (cases "a = 13")
    case True
    with a13 have "b < 32" by simp
    with b c True show ?thesis unfolding r_def by simp
  next
    case False
    then consider "a \<le> 12" | "14 \<le> a" by linarith
    then show ?thesis
    proof cases
      case 1
      with b c show ?thesis unfolding r_def by simp
    next
      case 2
      with b c show ?thesis unfolding r_def by simp
    qed
  qed
  show "EncodeRune ((s0 mod 16) * 4096 + (s1 mod 64) * 64 + s2 mod 64)
          = [char_of s0, char_of s1, char_of s2]"
    unfolding r EncodeRune3 [OF lo hi sur] d1 d2 m e ..
  show "RuneLen ((s0 mod 16) * 4096 + (s1 mod 64) * 64 + s2 mod 64) = 3"
    unfolding r RuneLen_def using lo hi sur by simp
qed

lemma encode_decode4:
  fixes s0 s1 s2 s3 :: int
  assumes "0xF0 \<le> s0" "s0 \<le> 0xF4" "acceptLo s0 \<le> s1" "s1 \<le> acceptHi s0"
    "0x80 \<le> s2" "s2 \<le> 0xBF" "0x80 \<le> s3" "s3 \<le> 0xBF"
  shows "EncodeRune ((s0 mod 8) * 262144 + (s1 mod 64) * 4096 + (s2 mod 64) * 64 + s3 mod 64)
           = [char_of s0, char_of s1, char_of s2, char_of s3]"
    and "RuneLen ((s0 mod 8) * 262144 + (s1 mod 64) * 4096 + (s2 mod 64) * 64 + s3 mod 64) = 4"
proof -
  define a where "a = s0 - 0xF0"
  define b where "b = s1 - 0x80"
  define c where "c = s2 - 0x80"
  define d where "d = s3 - 0x80"
  have s1: "0x80 \<le> s1" "s1 \<le> 0xBF"
    using assms(3,4) by (auto simp add: acceptLo_def acceptHi_def split: if_splits)
  have a: "0 \<le> a" "a \<le> 4" and b: "0 \<le> b" "b < 64" and c: "0 \<le> c" "c < 64"
    and d: "0 \<le> d" "d < 64"
    using assms s1 by (simp_all add: a_def b_def c_def d_def)
  have e: "0xF0 + a = s0" "0x80 + b = s1" "0x80 + c = s2" "0x80 + d = s3"
    by (simp_all add: a_def b_def c_def d_def)
  have a0: "a = 0 \<Longrightarrow> 16 \<le> b"
    using assms(3) by (auto simp add: acceptLo_def a_def b_def split: if_splits)
  have a4: "a = 4 \<Longrightarrow> b < 16"
    using assms(4) by (auto simp add: acceptHi_def a_def b_def split: if_splits)
  define r where "r = ((a * 64 + b) * 64 + c) * 64 + d"
  have r: "(s0 mod 8) * 262144 + (s1 mod 64) * 4096 + (s2 mod 64) * 64 + s3 mod 64 = r"
    using assms s1 by (simp add: mod8 mod64 a_def b_def c_def d_def r_def)
  have q1: "r div 64 = (a * 64 + b) * 64 + c" unfolding r_def using d by (rule div_mod_64)
  have m: "r mod 64 = d" unfolding r_def using d by (rule div_mod_64)
  have d2: "(r div 64) mod 64 = c" unfolding q1 using c by (rule div_mod_64)
  have q2: "r div 4096 = a * 64 + b" unfolding div_4096 q1 using c by (rule div_mod_64)
  have d1: "(r div 4096) mod 64 = b" unfolding q2 using b by (rule div_mod_64)
  have d0: "r div 262144 = a" unfolding div_262144 q2 using b by (rule div_mod_64)
  have lo: "0x10000 \<le> r"
  proof (cases "a = 0")
    case True
    with a0 have "16 \<le> b" by simp
    with c d True show ?thesis unfolding r_def by simp
  next
    case False
    with a have "1 \<le> a" by simp
    with b c d show ?thesis unfolding r_def by simp
  qed
  have hi: "r \<le> 0x10FFFF"
  proof (cases "a = 4")
    case True
    with a4 have "b < 16" by simp
    with c d True show ?thesis unfolding r_def by simp
  next
    case False
    with a have "a \<le> 3" by simp
    with b c d show ?thesis unfolding r_def by simp
  qed
  show "EncodeRune ((s0 mod 8) * 262144 + (s1 mod 64) * 4096 + (s2 mod 64) * 64 + s3 mod 64)
          = [char_of s0, char_of s1, char_of s2, char_of s3]"
    unfolding r EncodeRune4 [OF lo hi] d0 d1 d2 m e ..
  show "RuneLen ((s0 mod 8) * 262144 + (s1 mod 64) * 4096 + (s2 mod 64) * 64 + s3 mod 64) = 4"
    unfolding r RuneLen_def using lo hi by (simp add: MaxRune_def)
qed


lemma decode2_encode:
  assumes "(0xC2::int) \<le> of_char c" "(of_char c :: int) < 0xE0"
    "decode2 (of_char c) (map of_char cs) = (r, w)" "\<not> (r = RuneError \<and> w = 1)"
  shows "EncodeRune r = take w (c # cs) \<and> RuneLen r = int w"
proof (cases cs)
  case Nil
  with assms show ?thesis by simp
next
  case (Cons c1 t)
  let ?s0 = "of_char c :: int" and ?s1 = "of_char c1 :: int"
  have acc: "acceptLo ?s0 = 0x80" "acceptHi ?s0 = 0xBF"
    using assms(1,2) by (simp_all add: acceptLo_def acceptHi_def)
  from assms(3,4) Cons have ok: "0x80 \<le> ?s1" "?s1 \<le> 0xBF"
    and r: "r = (?s0 mod 32) * 64 + ?s1 mod 64" and w: "w = 2"
    by (auto simp add: acc split: if_splits)
  have "EncodeRune r = [char_of ?s0, char_of ?s1]" "RuneLen r = 2"
    unfolding r using assms(1,2) ok by (rule encode_decode2)+
  then show ?thesis using Cons w by simp
qed

lemma decode3_encode:
  assumes "(0xE0::int) \<le> of_char c" "(of_char c :: int) < 0xF0"
    "decode3 (of_char c) (map of_char cs) = (r, w)" "\<not> (r = RuneError \<and> w = 1)"
  shows "EncodeRune r = take w (c # cs) \<and> RuneLen r = int w"
proof -
  from assms(3,4) obtain c1 c2 t where cs: "cs = c1 # c2 # t"
    by (cases cs; cases "tl cs") auto
  let ?s0 = "of_char c :: int" and ?s1 = "of_char c1 :: int" and ?s2 = "of_char c2 :: int"
  from assms(3,4) cs have ok: "acceptLo ?s0 \<le> ?s1" "?s1 \<le> acceptHi ?s0" "0x80 \<le> ?s2" "?s2 \<le> 0xBF"
    and r: "r = (?s0 mod 16) * 4096 + (?s1 mod 64) * 64 + ?s2 mod 64" and w: "w = 3"
    by (auto split: if_splits)
  have "EncodeRune r = [char_of ?s0, char_of ?s1, char_of ?s2]" "RuneLen r = 3"
    unfolding r using assms(1,2) ok by (rule encode_decode3)+
  then show ?thesis using cs w by simp
qed

lemma decode4_encode:
  assumes "(0xF0::int) \<le> of_char c" "(of_char c :: int) \<le> 0xF4"
    "decode4 (of_char c) (map of_char cs) = (r, w)" "\<not> (r = RuneError \<and> w = 1)"
  shows "EncodeRune r = take w (c # cs) \<and> RuneLen r = int w"
proof -
  from assms(3,4) obtain c1 c2 c3 t where cs: "cs = c1 # c2 # c3 # t"
    by (cases cs; cases "tl cs"; cases "tl (tl cs)") auto
  let ?s0 = "of_char c :: int" and ?s1 = "of_char c1 :: int" and ?s2 = "of_char c2 :: int"
    and ?s3 = "of_char c3 :: int"
  from assms(3,4) cs have ok: "acceptLo ?s0 \<le> ?s1" "?s1 \<le> acceptHi ?s0" "0x80 \<le> ?s2" "?s2 \<le> 0xBF"
      "0x80 \<le> ?s3" "?s3 \<le> 0xBF"
    and r: "r = (?s0 mod 8) * 262144 + (?s1 mod 64) * 4096 + (?s2 mod 64) * 64 + ?s3 mod 64"
    and w: "w = 4"
    by (auto split: if_splits)
  have "EncodeRune r = [char_of ?s0, char_of ?s1, char_of ?s2, char_of ?s3]" "RuneLen r = 4"
    unfolding r using assms(1,2) ok by (rule encode_decode4)+
  then show ?thesis using cs w by simp
qed

lemma of_char_int_nonneg: "0 \<le> (of_char c :: int)"
  by (metis of_nat_of_char of_nat_0_le_iff)

lemma DecodeRuneInString_valid:
  assumes "DecodeRuneInString (c # cs) = (r, w)" "\<not> (r = RuneError \<and> w = 1)"
  shows "EncodeRune r = take w (c # cs) \<and> RuneLen r = int w"
proof -
  let ?s0 = "of_char c :: int"
  have d: "decodeBytes (?s0 # map of_char cs) = (r, w)"
    using assms(1) by (simp add: DecodeRuneInString_def)
  consider "?s0 < 0x80" | "0x80 \<le> ?s0" "?s0 < 0xC2 \<or> 0xF4 < ?s0"
    | "0xC2 \<le> ?s0" "?s0 < 0xE0" | "0xE0 \<le> ?s0" "?s0 < 0xF0" | "0xF0 \<le> ?s0" "?s0 \<le> 0xF4"
    by linarith
  then show ?thesis
  proof cases
    case 1
    with d have r: "r = ?s0" and w: "w = 1" by simp_all
    have "EncodeRune ?s0 = [char_of ?s0]" using of_char_int_nonneg 1 by (rule EncodeRune1)
    moreover have "RuneLen ?s0 = 1" using of_char_int_nonneg [of c] 1 by (simp add: RuneLen_def)
    ultimately show ?thesis using r w by simp
  next
    case 2
    with d assms(2) show ?thesis by auto
  next
    case 3
    with d have "decode2 ?s0 (map of_char cs) = (r, w)" by simp
    with 3 show ?thesis using assms(2) by (intro decode2_encode)
  next
    case 4
    with d have "decode3 ?s0 (map of_char cs) = (r, w)" by simp
    with 4 show ?thesis using assms(2) by (intro decode3_encode)
  next
    case 5
    with d have "decode4 ?s0 (map of_char cs) = (r, w)" by simp
    with 5 show ?thesis using assms(2) by (intro decode4_encode)
  qed
qed

lemma DecodeRuneInString_encode:
  assumes "DecodeRuneInString (c # cs) = (r, w)" "\<not> (r = RuneError \<and> w = 1)"
  shows "EncodeRune r = take w (c # cs)"
  using DecodeRuneInString_valid [OF assms] by simp

lemma DecodeRuneInString_RuneLen:
  assumes "DecodeRuneInString (c # cs) = (r, w)" "\<not> (r = RuneError \<and> w = 1)"
  shows "RuneLen r = int w"
  using DecodeRuneInString_valid [OF assms] by simp

lemma buildChildren_mem:
  "(k, c) \<in> set cs \<Longrightarrow> x \<in> set (buildMembers c (pre @ EncodeRune k)) \<Longrightarrow>
   x \<in> set (buildChildren cs pre)"
  by (induction cs) auto

lemma buildMembers_includes:
  "includes' p rs \<noteq> None \<Longrightarrow> pre @ EncodeRunes rs \<in> set (buildMembers p pre)"
proof (induction rs arbitrary: p pre)
  case Nil
  then show ?case by (cases p) (auto simp add: EncodeRunes_def split: if_splits)
next
  case (Cons r0 r)
  obtain l v cs where p: "p = Trie l v cs" by (cases p)
  from Cons.prems p obtain c where c: "map_of cs r0 = Some c" and inc: "includes' c r \<noteq> None"
    by (auto split: option.splits)
  from c have mem: "(r0, c) \<in> set cs" by (rule map_of_SomeD)
  from Cons.IH [OF inc, of "pre @ EncodeRune r0"]
  have "pre @ EncodeRune r0 @ EncodeRunes r \<in> set (buildMembers c (pre @ EncodeRune r0))"
    by simp
  with mem have "pre @ EncodeRune r0 @ EncodeRunes r \<in> set (buildChildren cs pre)"
    by (rule buildChildren_mem)
  then show ?case by (simp add: p EncodeRunes_def)
qed

lemma rangeFrom_shift:
  "rangeFrom pos s = map (\<lambda>(q, r). (pos + q, r)) (rangeFrom 0 s)"
proof (induction "length s" arbitrary: s pos rule: less_induct)
  case less
  show ?case
  proof (cases s)
    case Nil
    then show ?thesis by simp
  next
    case (Cons c cs)
    obtain r w where d: "DecodeRuneInString (c # cs) = (r, w)"
      by (cases "DecodeRuneInString (c # cs)")
    with DecodeRuneInString_width [of "c # cs"] have "1 \<le> w" by simp
    then have shorter: "length (drop w (c # cs)) < length s" using Cons by simp
    have "rangeFrom (pos + w) (drop w (c # cs))
            = map (\<lambda>(q, r). (pos + w + q, r)) (rangeFrom 0 (drop w (c # cs)))"
      by (rule less [OF shorter])
    moreover have "rangeFrom (0 + w) (drop w (c # cs))
            = map (\<lambda>(q, r). (0 + w + q, r)) (rangeFrom 0 (drop w (c # cs)))"
      by (rule less [OF shorter])
    ultimately show ?thesis using Cons d by (simp add: case_prod_unfold add.assoc)
  qed
qed

lemma runes_Cons:
  assumes "DecodeRuneInString (c # cs) = (r, w)"
  shows "runes (c # cs) = r # runes (drop w (c # cs))"
proof -
  have "map snd (rangeFrom w (drop w (c # cs))) = map snd (rangeFrom 0 (drop w (c # cs)))"
    by (subst rangeFrom_shift) (simp add: case_prod_unfold comp_def)
  with assms show ?thesis by (simp add: runes_def rangeStr_def)
qed

lemma EncodeRunes_runes: "ValidString s \<Longrightarrow> EncodeRunes (runes s) = s"
proof (induction s rule: ValidString.induct)
  case 1
  show ?case by (simp add: EncodeRunes_def runes_def rangeStr_def)
next
  case (2 c cs)
  obtain r w where d: "DecodeRuneInString (c # cs) = (r, w)"
    by (cases "DecodeRuneInString (c # cs)")
  from "2.prems" d have ok: "\<not> (r = RuneError \<and> w = 1)" and rest: "ValidString (drop w (c # cs))"
    by simp_all
  have "EncodeRunes (runes (drop w (c # cs))) = drop w (c # cs)"
    using "2.IH" [OF d [symmetric] rest] .
  moreover have "EncodeRune r = take w (c # cs)"
    using d ok by (rule DecodeRuneInString_encode)
  ultimately show ?case
    by (simp add: runes_Cons [OF d] EncodeRunes_def del: take_Suc_Cons drop_Suc_Cons)
qed

lemma runes_inj_on_valid:
  "ValidString s \<Longrightarrow> ValidString t \<Longrightarrow> runes s = runes t \<Longrightarrow> s = t"
  by (metis EncodeRunes_runes)

section \<open>Insertion: what it adds and what it keeps\<close>

lemma map_of_update_same: "map_of (AList.update k v cs) k = Some v"
  by (simp add: update_conv')

lemma map_of_update_other: "k' \<noteq> k \<Longrightarrow> map_of (AList.update k v cs) k' = map_of cs k'"
  by (simp add: update_conv')

lemma includes_addRunes_same:
  "(\<And>n. leaf (f n) = leaf n) \<Longrightarrow> includes' (addRunes f p rs) rs \<noteq> None"
proof (induction rs arbitrary: p)
  case Nil
  then show ?case by (cases p) simp
next
  case (Cons r0 r)
  then show ?case by (cases p) (simp add: Let_def map_of_update_same)
qed

lemma includes_NewTrie: "includes' NewTrie ks = None"
  by (cases ks) (simp_all add: NewTrie_def)

lemma includes_addRunes_other:
  "(\<And>n. children (f n) = children n) \<Longrightarrow> rs' \<noteq> rs \<Longrightarrow>
   map_option val (includes' (addRunes f p rs) rs') = map_option val (includes' p rs')"
proof (induction rs arbitrary: p rs')
  case Nil
  then show ?case by (cases p; cases rs') simp_all
next
  case (Cons r0 r)
  show ?case
  proof (cases rs')
    case Nil
    then show ?thesis by (cases p) (simp add: Let_def)
  next
    case (Cons k ks)
    show ?thesis
    proof (cases "k = r0")
      case True
      with Cons Cons.prems have "ks \<noteq> r" by simp
      with Cons.IH Cons.prems(1) have ih: "\<And>n. map_option val (includes' (addRunes f n r) ks) = map_option val (includes' n ks)"
        by blast
      show ?thesis using True Cons ih
        by (cases p) (auto simp add: Let_def map_of_update_same includes_NewTrie split: option.splits)
    next
      case False
      then show ?thesis using Cons
        by (cases p) (simp add: Let_def map_of_update_other)
    qed
  qed
qed

lemma includes_addRunes_mono:
  "(\<And>n. children (f n) = children n) \<Longrightarrow> (\<And>n. leaf n \<Longrightarrow> leaf (f n)) \<Longrightarrow>
   includes' p rs' \<noteq> None \<Longrightarrow> includes' (addRunes f p rs) rs' \<noteq> None"
proof (induction rs arbitrary: p rs')
  case Nil
  then show ?case by (cases p; cases rs') (auto split: if_splits)
next
  case (Cons r0 r)
  show ?case
  proof (cases rs')
    case Nil
    then show ?thesis using Cons.prems by (cases p) (auto simp add: Let_def split: if_splits)
  next
    case (Cons k ks)
    show ?thesis
    proof (cases "k = r0")
      case True
      show ?thesis using True Cons Cons.prems(3) Cons.IH [OF Cons.prems(1,2)]
        by (cases p) (auto simp add: Let_def map_of_update_same split: option.splits)
    next
      case False
      then show ?thesis using Cons Cons.prems(3)
        by (cases p) (simp add: Let_def map_of_update_other)
    qed
  qed
qed

lemma runes_Nil_iff: "runes s = [] \<longleftrightarrow> s = []"
  by (cases s) (simp_all add: runes_def rangeStr_def split: prod.splits)

lemma includes_addRunes_id_same:
  "includes' p rs = Some n \<Longrightarrow>
   map_option val (includes' (addRunes (\<lambda>n. n) p rs) rs) = Some (val n)"
proof (induction rs arbitrary: p)
  case Nil
  then show ?case by (cases p) (auto split: if_splits)
next
  case (Cons r0 r)
  then show ?case
    by (cases p) (auto simp add: Let_def map_of_update_same split: option.splits)
qed

text \<open>
  C7, as amended. For every non-empty string \<open>s\<close> and every trie state, after
  \<open>AddString(s)\<close> the query \<open>Contains(s)\<close> returns true and the UTF-8 encoding of the
  runes of \<open>s\<close> appears in \<open>Members()\<close>; that encoding is \<open>s\<close> itself when \<open>s\<close> is valid
  UTF-8, so a valid \<open>s\<close> appears in \<open>Members()\<close>.
\<close>

theorem AddString_Contains_Members:
  assumes "s \<noteq> []"
  shows "Contains (AddString p s) s \<and>
         EncodeRunes (runes s) \<in> set (Members (AddString p s)) \<and>
         (ValidString s \<longrightarrow> s \<in> set (Members (AddString p s)))"
proof -
  have inc: "includes' (addRunes (\<lambda>n. n) p (runes s)) (runes s) \<noteq> None"
    by (rule includes_addRunes_same) simp
  have c: "Contains (AddString p s) s"
    using assms inc by (simp add: Contains_def AddString_def)
  have "[] @ EncodeRunes (runes s) \<in> set (buildMembers (addRunes (\<lambda>n. n) p (runes s)) [])"
    using inc by (rule buildMembers_includes)
  then have m: "EncodeRunes (runes s) \<in> set (Members (AddString p s))"
    using assms by (simp add: Members_def AddString_def)
  from c m show ?thesis by (auto simp add: EncodeRunes_runes)
qed

theorem AddString_Contains_Members_witness:
  "[CHR ''h'', CHR 0xC3, CHR 0xA9] \<noteq> [] \<and> ValidString [CHR ''h'', CHR 0xC3, CHR 0xA9] \<and>
   Contains (AddString (AddString (NewTrie :: unit Trie) ''hi'') [CHR ''h'', CHR 0xC3, CHR 0xA9])
     [CHR ''h'', CHR 0xC3, CHR 0xA9] \<and>
   [CHR ''h'', CHR 0xC3, CHR 0xA9]
     \<in> set (Members (AddString (AddString (NewTrie :: unit Trie) ''hi'') [CHR ''h'', CHR 0xC3, CHR 0xA9]))"
proof -
  have v: "ValidString [CHR ''h'', CHR 0xC3, CHR 0xA9]" by code_simp
  show ?thesis
    using v AddString_Contains_Members
      [of "[CHR ''h'', CHR 0xC3, CHR 0xA9]" "AddString (NewTrie :: unit Trie) ''hi''"]
    by simp
qed

text \<open>
  The string of the single byte \<open>0xFF\<close> is not valid UTF-8: it is stored under the rune
  U+FFFD, and \<open>Members()\<close> returns the three bytes that encode U+FFFD, not the string
  that was added.
\<close>

theorem AddString_Members_invalid_counterexample:
  "[CHR 0xFF] \<noteq> [] \<and>
   Contains (AddString (NewTrie :: unit Trie) [CHR 0xFF]) [CHR 0xFF] \<and>
   [CHR 0xFF] \<notin> set (Members (AddString (NewTrie :: unit Trie) [CHR 0xFF])) \<and>
   Members (AddString (NewTrie :: unit Trie) [CHR 0xFF]) = [[CHR 0xEF, CHR 0xBF, CHR 0xBD]]"
  by code_simp

text \<open>
  C9, as amended. Insertion never removes or alters existing entries: for every trie
  state, every string \<open>s\<close> and value \<open>v\<close>, every stored string \<open>t\<close> remains a member after
  \<open>AddString(s)\<close> and after \<open>AddValue(s, v)\<close>; \<open>AddString(s)\<close> leaves \<open>GetValue(t)\<close> unchanged;
  and \<open>AddValue(s, v)\<close> leaves \<open>GetValue(t)\<close> unchanged when the runes of \<open>t\<close> differ from
  those of \<open>s\<close>, which is the case of any two distinct valid UTF-8 strings.
\<close>

theorem insertion_keeps_entries:
  assumes "Contains p t"
  shows "Contains (AddString p s) t \<and> Contains (AddValue p s v) t \<and>
         GetValue (AddString p s) t = GetValue p t \<and>
         (runes t \<noteq> runes s \<longrightarrow> GetValue (AddValue p s v) t = GetValue p t) \<and>
         (ValidString t \<and> ValidString s \<and> t \<noteq> s \<longrightarrow>
            GetValue (AddValue p s v) t = GetValue p t)"
proof -
  from assms have t: "t \<noteq> []" and inc: "includes' p (runes t) \<noteq> None"
    by (auto simp add: Contains_def split: if_splits)
  have c1: "Contains (AddString p s) t"
    using t inc includes_addRunes_mono [of "\<lambda>n. n" p "runes t" "runes s"]
    by (simp add: Contains_def AddString_def)
  have c2: "Contains (AddValue p s v) t"
    using t inc includes_addRunes_mono [of "\<lambda>n. Trie (leaf n) v (children n)" p "runes t" "runes s"]
    by (simp add: Contains_def AddValue_def)
  have get: "GetValue q t = GetValue p t"
    if "map_option val (includes' q (runes t)) = map_option val (includes' p (runes t))" for q
    using that t by (cases "includes' q (runes t)"; cases "includes' p (runes t)")
      (simp_all add: GetValue_def)
  have g1: "GetValue (AddString p s) t = GetValue p t"
  proof (cases "s = [] \<or> runes t \<noteq> runes s")
    case True
    then show ?thesis
      using includes_addRunes_other [of "\<lambda>n. n" "runes t" "runes s" p]
      by (auto simp add: AddString_def intro: get)
  next
    case False
    then have s: "s \<noteq> []" and eq: "runes s = runes t" by simp_all
    from inc obtain n where n: "includes' p (runes t) = Some n" by auto
    show ?thesis
      using includes_addRunes_id_same [OF n] n s eq
      by (auto simp add: AddString_def intro!: get)
  qed
  have g2: "GetValue (AddValue p s v) t = GetValue p t" if "runes t \<noteq> runes s"
    using that includes_addRunes_other [of "\<lambda>n. Trie (leaf n) v (children n)" "runes t" "runes s" p]
    by (auto simp add: AddValue_def intro: get)
  have g3: "runes t \<noteq> runes s" if "ValidString t" "ValidString s" "t \<noteq> s"
    using that runes_inj_on_valid by blast
  from c1 c2 g1 g2 g3 show ?thesis by blast
qed

theorem insertion_keeps_entries_witness:
  "Contains (AddValue (NewTrie :: nat Trie) ''hen'' (Some 2)) ''hen'' \<and>
   runes ''hen'' \<noteq> runes ''hena'' \<and>
   ValidString ''hen'' \<and> ValidString ''hena'' \<and> ''hen'' \<noteq> ''hena'' \<and>
   Contains (AddString (AddValue (NewTrie :: nat Trie) ''hen'' (Some 2)) ''hena'') ''hen'' \<and>
   Contains (AddValue (AddValue (NewTrie :: nat Trie) ''hen'' (Some 2)) ''hena'' (Some 4)) ''hen'' \<and>
   GetValue (AddString (AddValue (NewTrie :: nat Trie) ''hen'' (Some 2)) ''hena'') ''hen''
     = (Some 2, True) \<and>
   GetValue (AddValue (AddValue (NewTrie :: nat Trie) ''hen'' (Some 2)) ''hena'' (Some 4)) ''hen''
     = (Some 2, True)"
proof -
  have c: "Contains (AddValue (NewTrie :: nat Trie) ''hen'' (Some 2)) ''hen''" by code_simp
  have r: "runes ''hen'' \<noteq> runes ''hena''" by code_simp
  have v: "ValidString ''hen''" "ValidString ''hena''" by code_simp+
  have g: "GetValue (AddValue (NewTrie :: nat Trie) ''hen'' (Some 2)) ''hen'' = (Some 2, True)"
    by code_simp
  show ?thesis
    using c r v g insertion_keeps_entries [OF c, of "''hena''" "Some 4"]
    by simp
qed

text \<open>
  The byte \<open>0xFF\<close> and the encoding of U+FFFD are distinct strings with the same runes:
  a value added for one replaces the value stored for the other.
\<close>

theorem insertion_same_runes_counterexample:
  "Contains (AddValue (NewTrie :: nat Trie) [CHR 0xFF] (Some 1)) [CHR 0xFF] \<and>
   [CHR 0xFF] \<noteq> [CHR 0xEF, CHR 0xBF, CHR 0xBD] \<and>
   GetValue (AddValue (AddValue (NewTrie :: nat Trie) [CHR 0xFF] (Some 1))
               [CHR 0xEF, CHR 0xBF, CHR 0xBD] (Some 2)) [CHR 0xFF]
     \<noteq> GetValue (AddValue (NewTrie :: nat Trie) [CHR 0xFF] (Some 1)) [CHR 0xFF] \<and>
   GetValue (AddValue (NewTrie :: nat Trie) [CHR 0xFF] (Some 1)) [CHR 0xFF] = (Some 1, True) \<and>
   GetValue (AddValue (AddValue (NewTrie :: nat Trie) [CHR 0xFF] (Some 1))
               [CHR 0xEF, CHR 0xBF, CHR 0xBD] (Some 2)) [CHR 0xFF] = (Some 2, True)"
  by code_simp

section \<open>The size of a trie\<close>

lemma Size_children: "Size p = length (children p) + SizeChildren (children p)"
  by (cases p) simp

lemma SizeChildren_update_new:
  "map_of cs k = None \<Longrightarrow>
   length (AList.update k n cs) = Suc (length cs) \<and>
   SizeChildren (AList.update k n cs) = SizeChildren cs + Size n"
  by (induction cs) (auto split: if_splits)

lemma SizeChildren_update_old:
  "map_of cs k = Some c \<Longrightarrow>
   length (AList.update k n cs) = length cs \<and>
   SizeChildren (AList.update k n cs) + Size c = SizeChildren cs + Size n"
  by (induction cs) (auto split: if_splits)

lemma pathLen_NewTrie: "pathLen NewTrie rs = 0"
  by (cases rs) (simp_all add: NewTrie_def)

lemma Size_NewTrie: "Size NewTrie = 0"
  by (simp add: NewTrie_def)

lemma Size_addRunes:
  assumes f: "\<And>n. children (f n) = children n"
  shows "Size (addRunes f p rs) + pathLen p rs = Size p + length rs"
proof (induction rs arbitrary: p)
  case Nil
  obtain l v cs where p: "p = Trie l v cs" by (cases p)
  show ?case using f [of "Trie True v cs"] by (simp add: p Size_children [of "f (Trie True v cs)"])
next
  case (Cons r0 r)
  obtain l v cs where p: "p = Trie l v cs" by (cases p)
  show ?case
  proof (cases "map_of cs r0")
    case None
    from Cons [of NewTrie] have "Size (addRunes f NewTrie r) = length r"
      by (simp add: pathLen_NewTrie Size_NewTrie)
    with None SizeChildren_update_new [OF None, of "addRunes f NewTrie r"] show ?thesis
      by (simp add: p Let_def)
  next
    case (Some c)
    from Cons [of c] have "Size (addRunes f c r) + pathLen c r = Size c + length r" .
    with Some SizeChildren_update_old [OF Some, of "addRunes f c r"] show ?thesis
      by (simp add: p Let_def)
  qed
qed

lemma pathLen_addRunes:
  assumes f: "\<And>n. children (f n) = children n"
  shows "pathLen (addRunes f p rs1) rs2
           = max (pathLen p rs2) (length (longest_common_prefix rs1 rs2))"
proof (induction rs1 arbitrary: p rs2)
  case Nil
  obtain l v cs where p: "p = Trie l v cs" by (cases p)
  show ?case using f [of "Trie True v cs"] by (cases rs2) (simp_all add: p)
next
  case (Cons r0 r)
  obtain l v cs where p: "p = Trie l v cs" by (cases p)
  show ?case
  proof (cases rs2)
    case Nil
    then show ?thesis by simp
  next
    case (Cons k ks)
    show ?thesis
    proof (cases "k = r0")
      case True
      show ?thesis using Cons True Cons.IH
        by (cases "map_of cs r0")
          (simp_all add: p Let_def map_of_update_same pathLen_NewTrie)
    next
      case False
      then show ?thesis using Cons
        by (simp add: p Let_def map_of_update_other)
    qed
  qed
qed

lemma Size_AddString:
  "Size (AddString p s) + pathLen p (runes s) = Size p + length (runes s)"
proof (cases "s = []")
  case True
  then show ?thesis by (simp add: AddString_def runes_def rangeStr_def)
next
  case False
  then show ?thesis using Size_addRunes [of "\<lambda>n. n" p "runes s"]
    by (simp add: AddString_def)
qed

lemma pathLen_AddString:
  "pathLen (AddString p s1) rs2
     = max (pathLen p rs2) (length (longest_common_prefix (runes s1) rs2))"
proof (cases "s1 = []")
  case True
  then show ?thesis by (simp add: AddString_def runes_def rangeStr_def)
next
  case False
  then show ?thesis using pathLen_addRunes [of "\<lambda>n. n" p "runes s1" rs2]
    by (simp add: AddString_def)
qed

lemma Size_two_strings:
  "Size (AddString (AddString (NewTrie :: 'v Trie) s1) s2)
     = length (runes s1) + length (runes s2)
         - length (longest_common_prefix (runes s1) (runes s2))"
proof -
  have 1: "Size (AddString (NewTrie :: 'v Trie) s1) = length (runes s1)"
    using Size_AddString [of "NewTrie :: 'v Trie" s1] by (simp add: pathLen_NewTrie Size_NewTrie)
  have 2: "pathLen (AddString (NewTrie :: 'v Trie) s1) (runes s2)
             = length (longest_common_prefix (runes s1) (runes s2))"
    by (simp add: pathLen_AddString pathLen_NewTrie)
  from Size_AddString [of "AddString (NewTrie :: 'v Trie) s1" s2] 1 2 show ?thesis by simp
qed

lemma nodePaths_Trie: "nodePaths (Trie l v cs) = childPaths cs"
  by (auto simp add: nodePaths_def childPaths_def neq_Nil_conv split: option.splits)

lemma nodeAt_paths: "{rs. nodeAt c rs \<noteq> None} = insert [] (nodePaths c)"
  by (auto simp add: nodePaths_def)

lemma childPaths_Nil: "childPaths [] = {}"
  by (simp add: childPaths_def)

lemma childPaths_Cons:
  assumes "k \<notin> fst ` set cs"
  shows "childPaths ((k, c) # cs) = (#) k ` insert [] (nodePaths c) \<union> childPaths cs"
proof -
  have none: "map_of cs k = None" using assms by (simp add: map_of_eq_None_iff)
  have "x \<in> childPaths ((k, c) # cs) \<longleftrightarrow>
        x \<in> (#) k ` {rs. nodeAt c rs \<noteq> None} \<union> childPaths cs" for x
  proof (cases x)
    case Nil
    then show ?thesis by (auto simp add: childPaths_def)
  next
    case (Cons k' rs)
    show ?thesis
    proof (cases "k' = k")
      case True
      with Cons none show ?thesis by (auto simp add: childPaths_def)
    next
      case False
      with Cons show ?thesis by (auto simp add: childPaths_def)
    qed
  qed
  then have "childPaths ((k, c) # cs) = (#) k ` {rs. nodeAt c rs \<noteq> None} \<union> childPaths cs"
    by blast
  then show ?thesis by (simp only: nodeAt_paths)
qed

lemma childPaths_head:
  assumes "k \<notin> fst ` set cs"
  shows "k # rs \<notin> childPaths cs"
proof -
  have "map_of cs k = None" using assms by (simp add: map_of_eq_None_iff)
  then show ?thesis by (simp add: childPaths_def)
qed

lemma Size_card_paths:
  fixes p :: "'v Trie" and cs :: "(rune \<times> 'v Trie) list"
  shows "invar p \<Longrightarrow> finite (nodePaths p) \<and> card (nodePaths p) = Size p"
    and "distinct (map fst cs) \<Longrightarrow> invarChildren cs \<Longrightarrow>
         finite (childPaths cs) \<and> card (childPaths cs) = length cs + SizeChildren cs"
proof (induction p and cs rule: Size_SizeChildren.induct)
  case (1 l v cs)
  then show ?case by (simp add: nodePaths_Trie)
next
  case 2
  show ?case by (simp add: childPaths_Nil)
next
  case (3 r child cs)
  from "3.prems" have fresh: "r \<notin> fst ` set cs" and d: "distinct (map fst cs)"
    and ic: "invar child" and ics: "invarChildren cs" by simp_all
  from "3.IH"(1) [OF ic] have fc: "finite (nodePaths child)"
    and cc: "card (nodePaths child) = Size child" by simp_all
  from "3.IH"(2) [OF d ics] have fs: "finite (childPaths cs)"
    and cs: "card (childPaths cs) = length cs + SizeChildren cs" by simp_all
  let ?A = "(#) r ` insert [] (nodePaths child)"
  have "[] \<notin> nodePaths child" by (simp add: nodePaths_def)
  with fc have "card (insert [] (nodePaths child)) = Suc (Size child)" by (simp add: cc)
  moreover have "card ?A = card (insert [] (nodePaths child))"
    by (rule card_image) (rule inj_onI, simp)
  ultimately have cA: "card ?A = Suc (Size child)" by (simp only:)
  have fA: "finite ?A" using fc by simp
  have disj: "?A \<inter> childPaths cs = {}" using childPaths_head [OF fresh] by auto
  have "card (?A \<union> childPaths cs) = card ?A + card (childPaths cs)"
    using fA fs disj by (rule card_Un_disjoint)
  with cA cs fA fs show ?case by (simp add: childPaths_Cons [OF fresh] del: image_insert)
qed

lemma invar_NewTrie: "invar NewTrie"
  by (simp add: NewTrie_def)

lemma invarChildren_iff: "invarChildren cs \<longleftrightarrow> (\<forall>(k, c) \<in> set cs. invar c)"
  by (induction cs) auto

lemma invar_Trie:
  "invar (Trie l v cs) \<longleftrightarrow> distinct (map fst cs) \<and> (\<forall>(k, c) \<in> set cs. invar c)"
  by (simp add: invarChildren_iff)

lemma invar_iff:
  "invar p \<longleftrightarrow> distinct (map fst (children p)) \<and> (\<forall>(k, c) \<in> set (children p). invar c)"
  by (cases p) (simp add: invarChildren_iff)

lemma set_update_subset: "set (AList.update k v cs) \<subseteq> insert (k, v) (set cs)"
  by (induction cs) auto

lemma set_delete_subset: "set (AList.delete k cs) \<subseteq> set cs"
  by (induction cs) auto

lemma invar_addRunes:
  assumes f: "\<And>n. children (f n) = children n"
  shows "invar p \<Longrightarrow> invar (addRunes f p rs)"
proof (induction rs arbitrary: p)
  case Nil
  obtain l v cs where p: "p = Trie l v cs" by (cases p)
  from Nil p show ?case using f [of "Trie True v cs"]
    by (simp add: invar_iff [of "f (Trie True v cs)"] invar_Trie del: invar.simps)
next
  case (Cons r0 r)
  obtain l v cs where p: "p = Trie l v cs" by (cases p)
  define n where "n = (case map_of cs r0 of None \<Rightarrow> NewTrie | Some n \<Rightarrow> n)"
  have "invar n"
  proof (cases "map_of cs r0")
    case None
    then show ?thesis by (simp add: n_def invar_NewTrie)
  next
    case (Some c)
    then have "(r0, c) \<in> set cs" by (rule map_of_SomeD)
    with Cons.prems p Some show ?thesis by (auto simp add: n_def invar_Trie simp del: invar.simps)
  qed
  then have new: "invar (addRunes f n r)" by (rule Cons.IH)
  have "\<forall>(k, c) \<in> set (AList.update r0 (addRunes f n r) cs). invar c"
    using set_update_subset [of r0 "addRunes f n r" cs] new Cons.prems p
    by (auto simp add: invar_Trie simp del: invar.simps)
  moreover have "distinct (map fst (AList.update r0 (addRunes f n r) cs))"
    using Cons.prems p by (simp add: distinct_update)
  ultimately show ?case
    by (simp add: p Let_def n_def [symmetric] invar_Trie del: invar.simps)
qed

lemma invar_removeRunes: "invar p \<Longrightarrow> invar (fst (removeRunes p rs))"
proof (induction rs arbitrary: p)
  case Nil
  then show ?case by (cases p) simp
next
  case (Cons r0 r)
  obtain l v cs where p: "p = Trie l v cs" by (cases p)
  show ?case
  proof (cases "map_of cs r0")
    case None
    with Cons.prems p show ?thesis by simp
  next
    case (Some c)
    then have "(r0, c) \<in> set cs" by (rule map_of_SomeD)
    with Cons.prems p have "invar c" by (auto simp add: invar_Trie simp del: invar.simps)
    then have new: "invar (fst (removeRunes c r))" by (rule Cons.IH)
    obtain c' emptied where rr: "removeRunes c r = (c', emptied)" by (cases "removeRunes c r")
    with new have c': "invar c'" by simp
    have "\<forall>(k, x) \<in> set (AList.update r0 c' cs). invar x"
      using set_update_subset [of r0 c' cs] c' Cons.prems p
      by (auto simp add: invar_Trie simp del: invar.simps)
    moreover have "\<forall>(k, x) \<in> set (AList.delete r0 cs). invar x"
      using set_delete_subset [of r0 cs] Cons.prems p
      by (auto simp add: invar_Trie simp del: invar.simps)
    moreover have "distinct (map fst (AList.update r0 c' cs))"
      "distinct (map fst (AList.delete r0 cs))"
      using Cons.prems p by (simp_all add: distinct_update distinct_delete)
    ultimately show ?thesis
      using Some rr by (simp add: p Let_def invar_Trie del: invar.simps)
  qed
qed

lemma invar_AddString: "invar p \<Longrightarrow> invar (AddString p s)"
  by (simp add: AddString_def invar_addRunes)

lemma invar_AddValue: "invar p \<Longrightarrow> invar (AddValue p s v)"
  by (simp add: AddValue_def invar_addRunes)

lemma invar_Remove: "invar p \<Longrightarrow> invar (fst (Remove p s))"
  by (simp add: Remove_def invar_removeRunes)

text \<open>
  C6, as amended. \<open>Size()\<close> equals the number of distinct nodes strictly below the
  root (the root itself is never counted), in every trie whose maps have one entry
  for a key; and for any two strings \<open>s1\<close> and \<open>s2\<close>, with \<open>n1\<close> and \<open>n2\<close> code points and
  a longest common prefix of \<open>k\<close> code points, inserting both into an empty trie
  yields \<open>Size() == n1 + n2 - k\<close>.
\<close>

theorem Size_counts_nodes:
  "(invar (p :: 'v Trie) \<longrightarrow> Size p = card (nodePaths p)) \<and>
   Size (AddString (AddString (NewTrie :: 'v Trie) s1) s2)
     = length (runes s1) + length (runes s2)
         - length (longest_common_prefix (runes s1) (runes s2))"
  using Size_card_paths(1) [of p] Size_two_strings [of s1 s2] by simp

theorem Size_counts_nodes_witness:
  "invar (AddString (AddString (NewTrie :: unit Trie) ''ab'') ''ac'') \<and>
   card (nodePaths (AddString (AddString (NewTrie :: unit Trie) ''ab'') ''ac'')) = 3 \<and>
   length (runes ''ab'') + length (runes ''ac'')
     - length (longest_common_prefix (runes ''ab'') (runes ''ac'')) = 3 \<and>
   Size (AddString (AddString (NewTrie :: unit Trie) ''ab'') ''ac'') = 3"
proof -
  have i: "invar (AddString (AddString (NewTrie :: unit Trie) ''ab'') ''ac'')" by code_simp
  have s: "Size (AddString (AddString (NewTrie :: unit Trie) ''ab'') ''ac'') = 3" by code_simp
  have l: "length (runes ''ab'') + length (runes ''ac'')
     - length (longest_common_prefix (runes ''ab'') (runes ''ac'')) = 3" by code_simp
  show ?thesis
    using i s l Size_counts_nodes
      [of "AddString (AddString (NewTrie :: unit Trie) ''ab'') ''ac''" "''ab''" "''ac''"]
    by simp
qed

text \<open>
  \<open>"ab"\<close> and \<open>"ac"\<close> share the prefix \<open>"a"\<close> of length 1 and make a trie of 3 nodes,
  not of \<open>2 + 2 - 2 * 1\<close>. The lengths count code points: the letter e with an acute
  accent, written in UTF-8, has two bytes and makes one node.
\<close>

theorem Size_two_strings_counterexample:
  "''ab'' \<noteq> [] \<and> ''ac'' \<noteq> [] \<and>
   length (longest_common_prefix ''ab'' ''ac'') = 1 \<and>
   Size (AddString (AddString (NewTrie :: unit Trie) ''ab'') ''ac'')
     \<noteq> length ''ab'' + length ''ac'' - 2 * length (longest_common_prefix ''ab'' ''ac'') \<and>
   Size (AddString (AddString (NewTrie :: unit Trie) ''ab'') ''ac'') = 3 \<and>
   int (length ''ab'') + int (length ''ac'') - 2 * 1 = 2 \<and>
   length [CHR 0xC3, CHR 0xA9] = 2 \<and>
   longest_common_prefix [CHR 0xC3, CHR 0xA9] ''a'' = [] \<and>
   Size (AddString (AddString (NewTrie :: unit Trie) [CHR 0xC3, CHR 0xA9]) ''a'') = 2"
  by code_simp

section \<open>The weighted trie keeps the weights of existing nodes\<close>

lemma sendValues_returns: "\<exists>vals. sendValues s l = Inr vals"
proof (induction l)
  case Nil
  show ?case by simp
next
  case (Cons x l)
  obtain pos rune where x: "x = (pos, rune)" by (cases x)
  from Cons obtain vals where vals: "sendValues s l = Inr vals" by blast
  show ?case
  proof (cases "int pos < int (length s) - 1")
    case True
    then have "byteAt s (int pos + 1) = Inr (of_char (s ! nat (int pos + 1)))"
      by (simp add: byteAt_def)
    with vals x True show ?thesis by simp
  next
    case False
    with vals x show ?thesis by simp
  qed
qed

lemma ValueTrie_addRunes_keeps_value:
  "ValueTrie_nodeAt p rs = Some n \<Longrightarrow>
   \<exists>n'. ValueTrie_nodeAt (ValueTrie_addRunes p rs' iter) rs = Some n' \<and> vvalue n' = vvalue n"
proof (induction rs arbitrary: p rs' iter)
  case Nil
  then show ?case
    by (cases p; cases rs') (auto simp add: Let_def split: prod.splits)
next
  case (Cons k ks)
  obtain l v cs where p: "p = ValueTrie l v cs" by (cases p)
  from Cons.prems p obtain c where c: "map_of cs k = Some c" and at: "ValueTrie_nodeAt c ks = Some n"
    by (auto split: option.splits)
  show ?case
  proof (cases rs')
    case Nil
    with p c at show ?thesis by simp
  next
    case (Cons r0 r)
    obtain val' iter' where rc: "recv iter = (val', iter')" by (cases "recv iter")
    show ?thesis
    proof (cases "r0 = k")
      case True
      from Cons.IH [OF at, of r iter'] obtain n' where
        "ValueTrie_nodeAt (ValueTrie_addRunes c r iter') ks = Some n'" "vvalue n' = vvalue n"
        by blast
      with p c Cons True rc show ?thesis
        by (simp add: Let_def map_of_update_same)
    next
      case False
      with p c at Cons rc show ?thesis
        by (simp add: Let_def map_of_update_other)
    qed
  qed
qed

text \<open>
  C10. When \<open>AddPatternString\<close> inserts a pattern into a weighted trie, it returns
  normally and every node that existed before keeps its weight: whatever the pattern
  \<open>s\<close>, a node reached along a path \<open>rs\<close> before the call is reached along \<open>rs\<close> after
  it, with the same \<open>value\<close>. A weight is written only into a node that the call
  creates.
\<close>

theorem AddPatternString_keeps_weights:
  assumes "ValueTrie_nodeAt p rs = Some n"
  shows "\<exists>p' n'. AddPatternString p s = Inr p' \<and> ValueTrie_nodeAt p' rs = Some n' \<and>
           vvalue n' = vvalue n"
proof -
  obtain vals where vals: "sendValues s (rangeStr s) = Inr vals"
    using sendValues_returns by blast
  from ValueTrie_addRunes_keeps_value [OF assms, of "runes (pureString s)" vals]
  obtain n' where "ValueTrie_nodeAt (ValueTrie_addRunes p (runes (pureString s)) vals) rs = Some n'"
    "vvalue n' = vvalue n" by blast
  with vals show ?thesis by (simp add: AddPatternString_def)
qed

theorem AddPatternString_keeps_weights_witness:
  "AddPatternString NewValueTrie ''a1b''
     = Inr (ValueTrie False 0 [(97, ValueTrie False 1 [(98, ValueTrie True 0 [])])]) \<and>
   ValueTrie_nodeAt (ValueTrie False 0 [(97, ValueTrie False 1 [(98, ValueTrie True 0 [])])]) [97]
     = Some (ValueTrie False 1 [(98, ValueTrie True 0 [])]) \<and>
   (\<exists>p' n'. AddPatternString (ValueTrie False 0 [(97, ValueTrie False 1 [(98, ValueTrie True 0 [])])])
               ''a2c'' = Inr p' \<and>
            ValueTrie_nodeAt p' [97] = Some n' \<and> vvalue n' = 1)"
proof -
  have a: "AddPatternString NewValueTrie ''a1b''
     = Inr (ValueTrie False 0 [(97, ValueTrie False 1 [(98, ValueTrie True 0 [])])])"
    by code_simp
  have h: "ValueTrie_nodeAt (ValueTrie False 0 [(97, ValueTrie False 1 [(98, ValueTrie True 0 [])])]) [97]
     = Some (ValueTrie False 1 [(98, ValueTrie True 0 [])])"
    by simp
  show ?thesis
    using a h AddPatternString_keeps_weights [OF h, of "''a2c''"] by simp
qed

section \<open>The hyphenation pattern of the tests\<close>

text \<open>
  C3. Starting from an empty weighted trie, \<open>AddPatternString("hy3phe2n5a4t2io2n")\<close>
  returns normally, its pure string is \<open>"hyphenation"\<close>, which is then a member, and
  the node reached by consuming the \<open>i\<close>-th character of \<open>"hyphenation"\<close> carries the
  \<open>i\<close>-th weight of \<open>[0,3,0,0,2,5,4,2,0,2,0]\<close>, so that reading the weights along
  the path of \<open>"hyphenation"\<close> gives back that sequence.
\<close>

theorem AddPatternString_hyphenation:
  "(case AddPatternString NewValueTrie ''hy3phe2n5a4t2io2n'' of
      Inl e \<Rightarrow> False
    | Inr t \<Rightarrow>
        pureString ''hy3phe2n5a4t2io2n'' = ''hyphenation'' \<and>
        ValueTrie_Contains t ''hyphenation'' \<and>
        map (\<lambda>i. map_option vvalue (ValueTrie_nodeAt t (take (Suc i) (runes ''hyphenation''))))
          [0 ..< 11] = map Some [0, 3, 0, 0, 2, 5, 4, 2, 0, 2, 0] \<and>
        pathWeights t (runes ''hyphenation'') = Some [0, 3, 0, 0, 2, 5, 4, 2, 0, 2, 0])"
  by code_simp

section \<open>Which operations always return\<close>

text \<open>
  \<open>AllSubstrings\<close> slices at offsets that \<open>range\<close> produced, which lie inside the
  string, and always returns. \<open>AllSubstringsAndValues\<close> adds \<open>utf8.RuneLen\<close> of the
  rune to the offset; on a valid UTF-8 query that is the width of the rune and the
  slice ends inside the string.
\<close>

lemma rangeFrom_pos:
  "(q, r) \<in> set (rangeFrom pos s) \<Longrightarrow> pos \<le> q \<and> q < pos + length s"
proof (induction pos s rule: rangeFrom.induct)
  case (1 pos)
  then show ?case by simp
next
  case (2 pos c cs)
  obtain r0 w where d: "DecodeRuneInString (c # cs) = (r0, w)"
    by (cases "DecodeRuneInString (c # cs)")
  have w: "1 \<le> w" "w \<le> length (c # cs)"
    using DecodeRuneInString_width [of "c # cs"] DecodeRuneInString_width_le [of "c # cs"] d
    by simp_all
  from "2.prems" d consider "q = pos" | "(q, r) \<in> set (rangeFrom (pos + w) (drop w (c # cs)))"
    by auto
  then show ?case
  proof cases
    case 1
    then show ?thesis by simp
  next
    case 2
    from "2.IH" [OF d [symmetric] 2] w show ?thesis by auto
  qed
qed

lemma AllSubstrings_loop_returns:
  "\<forall>(q, r) \<in> set l. q \<le> length s \<Longrightarrow> \<exists>out. AllSubstrings_loop s p l v = Inr out"
proof (induction l arbitrary: p v)
  case Nil
  show ?case by simp
next
  case (Cons x l)
  obtain pos r where x: "x = (pos, r)" by (cases x)
  from Cons.prems x have pos: "pos \<le> length s" and rest: "\<forall>(q, r) \<in> set l. q \<le> length s"
    by simp_all
  from pos have sl: "slice s 0 (int pos) = Inr (take pos s)" by (simp add: slice_def)
  show ?case
  proof (cases "map_of (children p) r")
    case None
    with x show ?thesis by simp
  next
    case (Some child)
    with x sl Cons.IH [OF rest] show ?thesis by simp
  qed
qed

lemma AllSubstrings_returns: "\<exists>out. AllSubstrings p s = Inr out"
  unfolding AllSubstrings_def rangeStr_def
  by (rule AllSubstrings_loop_returns) (use rangeFrom_pos [of _ _ 0 s] in fastforce)


lemma rangeFrom_valid_end:
  "ValidString s \<Longrightarrow> (q, r) \<in> set (rangeFrom pos s) \<Longrightarrow>
   1 \<le> RuneLen r \<and> int q + RuneLen r \<le> int (pos + length s)"
proof (induction pos s rule: rangeFrom.induct)
  case (1 pos)
  then show ?case by simp
next
  case (2 pos c cs)
  obtain r0 w where d: "DecodeRuneInString (c # cs) = (r0, w)"
    by (cases "DecodeRuneInString (c # cs)")
  from "2.prems"(1) d have ok: "\<not> (r0 = RuneError \<and> w = 1)"
    and rest: "ValidString (drop w (c # cs))" by simp_all
  have w: "w \<le> length (c # cs)" "1 \<le> w"
    using DecodeRuneInString_width_le [of "c # cs"] DecodeRuneInString_width [of "c # cs"] d
    by simp_all
  from "2.prems"(2) d consider "q = pos" "r = r0"
    | "(q, r) \<in> set (rangeFrom (pos + w) (drop w (c # cs)))"
    by auto
  then show ?case
  proof cases
    case 1
    with DecodeRuneInString_RuneLen [OF d ok] w show ?thesis by simp
  next
    case 2
    from "2.IH" [OF d [symmetric] rest 2] w show ?thesis by simp
  qed
qed

lemma AllSubstringsAndValues_loop_returns:
  "\<forall>(q, r) \<in> set l. 0 \<le> int q + RuneLen r \<and> int q + RuneLen r \<le> int (length s) \<Longrightarrow>
   \<exists>out. AllSubstringsAndValues_loop s p l sv vv = Inr out"
proof (induction l arbitrary: p sv vv)
  case Nil
  show ?case by simp
next
  case (Cons x l)
  obtain pos r where x: "x = (pos, r)" by (cases x)
  from Cons.prems x have pos: "0 \<le> int pos + RuneLen r" "int pos + RuneLen r \<le> int (length s)"
    and rest: "\<forall>(q, r) \<in> set l. 0 \<le> int q + RuneLen r \<and> int q + RuneLen r \<le> int (length s)"
    by simp_all
  from pos obtain sub where sl: "slice s 0 (int pos + RuneLen r) = Inr sub"
    by (simp add: slice_def)
  show ?case
  proof (cases "map_of (children p) r")
    case None
    with x show ?thesis by simp
  next
    case (Some child)
    with x sl Cons.IH [OF rest] show ?thesis by simp
  qed
qed

lemma AllSubstringsAndValues_returns:
  assumes "ValidString s"
  shows "\<exists>out. AllSubstringsAndValues p s = Inr out"
  unfolding AllSubstringsAndValues_def rangeStr_def
proof (rule AllSubstringsAndValues_loop_returns, clarify)
  fix q r
  assume m: "(q, r) \<in> set (rangeFrom 0 s)"
  from rangeFrom_valid_end [OF assms m]
  show "0 \<le> int q + RuneLen r \<and> int q + RuneLen r \<le> int (length s)" by simp
qed

text \<open>The empty string and the empty trie.\<close>

lemma empty_string_operations:
  "AddString p [] = p"
  "AddValue p [] v = p"
  "Contains p [] = False"
  "GetValue p [] = (None, False)"
  "Remove p [] = (p, children p = [])"
  by (simp_all add: AddString_def AddValue_def Contains_def GetValue_def Remove_def)

lemma empty_trie_queries:
  "Size NewTrie = 0"
  "Members NewTrie = []"
  "Contains NewTrie q = False"
  "GetValue NewTrie q = (None, False)"
  "AllSubstrings NewTrie q = Inr []"
  "AllSubstringsAndValues NewTrie q = Inr ([], [])"
proof -
  show "Size NewTrie = 0" by (simp add: NewTrie_def)
  show "Members NewTrie = []" by (simp add: NewTrie_def Members_def)
  have inc: "includes' NewTrie rs = None" for rs by (rule includes_NewTrie)
  show "Contains NewTrie q = False" by (simp add: Contains_def inc)
  show "GetValue NewTrie q = (None, False)" by (simp add: GetValue_def inc)
  show "AllSubstrings NewTrie q = Inr []"
    by (cases "rangeStr q") (auto simp add: AllSubstrings_def NewTrie_def)
  show "AllSubstringsAndValues NewTrie q = Inr ([], [])"
    by (cases "rangeStr q") (auto simp add: AllSubstringsAndValues_def NewTrie_def)
qed

section \<open>Inputs on which the code departs from its description\<close>

text \<open>
  C1, at the failing inputs. With \<open>"a"\<close> and \<open>"ab"\<close> stored, \<open>Remove("ab")\<close> also removes
  \<open>"a"\<close>: \<open>removeRunes\<close> reports a node as empty when it has no children, without
  looking at its \<open>leaf\<close> flag, and the parent prunes it. With only \<open>"ab"\<close> stored,
  \<open>Remove("abc")\<close> of a string that is not a member empties the trie.
\<close>

theorem Remove_loses_other_members:
  "Contains (AddString (AddString (NewTrie :: unit Trie) ''a'') ''ab'') ''a'' \<and>
   \<not> Contains (fst (Remove (AddString (AddString (NewTrie :: unit Trie) ''a'') ''ab'') ''ab'')) ''a'' \<and>
   \<not> Contains (AddString (NewTrie :: unit Trie) ''ab'') ''abc'' \<and>
   Remove (AddString (NewTrie :: unit Trie) ''ab'') ''abc'' = (NewTrie, True)"
  by code_simp

text \<open>
  C2, at the failing input. With \<open>"hyph"\<close>, \<open>"hen"\<close>, \<open>"hena"\<close> and \<open>"henat"\<close> stored,
  \<open>AllSubstrings("henation")\<close> returns \<open>"he"\<close>, \<open>"hen"\<close>, \<open>"hena"\<close>: each match is cut
  before the matched rune (\<open>s[0:pos]\<close>), so \<open>"he"\<close> is returned and is not a member.
\<close>

theorem AllSubstrings_drops_matched_rune:
  "AllSubstrings
     (AddString (AddString (AddString (AddString (NewTrie :: unit Trie)
        ''hyph'') ''hen'') ''hena'') ''henat'') ''henation''
     = Inr [''he'', ''hen'', ''hena''] \<and>
   \<not> Contains
     (AddString (AddString (AddString (AddString (NewTrie :: unit Trie)
        ''hyph'') ''hen'') ''hena'') ''henat'') ''he''"
  by code_simp

text \<open>
  C4, at the failing input. On the same trie and query, \<open>AllSubstringsAndValues\<close>
  returns the strings \<open>"hen"\<close>, \<open>"hena"\<close>, \<open>"henat"\<close>, which is not the sequence that
  \<open>AllSubstrings\<close> returns.
\<close>

theorem AllSubstringsAndValues_differs_from_AllSubstrings:
  "AllSubstringsAndValues
     (AddString (AddString (AddString (AddString (NewTrie :: unit Trie)
        ''hyph'') ''hen'') ''hena'') ''henat'') ''henation''
     = Inr ([''hen'', ''hena'', ''henat''], [None, None, None]) \<and>
   AllSubstrings
     (AddString (AddString (AddString (AddString (NewTrie :: unit Trie)
        ''hyph'') ''hen'') ''hena'') ''henat'') ''henation''
     = Inr [''he'', ''hen'', ''hena'']"
  by code_simp

text \<open>
  C5, at the failing input. For \<open>"5emnix"\<close> the goroutine skips the leading digit and
  sends no value for it: the trie built is the one built for \<open>"emnix"\<close>, every node
  of the path carrying the weight \<open>0\<close>.
\<close>

theorem AddPatternString_drops_leading_digit:
  "pureString ''5emnix'' = ''emnix'' \<and>
   sendValues ''5emnix'' (rangeStr ''5emnix'') = Inr [0, 0, 0, 0] \<and>
   AddPatternString NewValueTrie ''5emnix'' = AddPatternString NewValueTrie ''emnix'' \<and>
   map_sum id (\<lambda>t. pathWeights t (runes ''emnix'')) (AddPatternString NewValueTrie ''5emnix'')
     = Inr (Some [0, 0, 0, 0, 0])"
  by code_simp

text \<open>
  C8, at the failing input. The byte \<open>0xFF\<close> is stored under the rune U+FFFD; on the
  query \<open>"\xff"\<close> the loop of \<open>AllSubstringsAndValues\<close> meets that leaf at \<open>pos = 0\<close> and
  slices \<open>s[0:0+utf8.RuneLen(U+FFFD)]\<close>, that is \<open>s[0:3]\<close> of a string of length 1.
\<close>

theorem AllSubstringsAndValues_panics:
  "AllSubstringsAndValues (AddString (NewTrie :: unit Trie) [CHR 0xFF]) [CHR 0xFF]
     = Inl SliceBoundsOutOfRange"
  by code_simp

end
